theory Spec2Isabelle
  imports Main "HOL-Library.Word" "HOL-Library.AList"
begin

section \<open>The in-memory alert provider (provider/mem/mem.go)\<close>

text \<open>
  A shallow embedding of package \<open>mem\<close>: the alert store with its merge policy on
  \<open>Put\<close>, the point lookup \<open>Get\<close>, the snapshot \<open>getPending\<close>, the subscription
  registry of \<open>Subscribe\<close>, the broadcast inside \<open>Put\<close>, the sweep of \<open>runGC\<close> and
  \<open>Close\<close>.

  Every method body between \<open>Lock\<close> and \<open>Unlock\<close> is one function on the state: the
  mutex \<open>mtx\<close> makes the critical sections atomic with respect to each other, so the
  record has no field for it. A goroutine that cannot go on (a send on a full queue
  nobody drains, a select with no ready case) is the outcome \<open>Blocks\<close>; a run-time panic
  (closing a closed channel, sending on one) is the outcome \<open>Panics\<close>.
\<close>

subsection \<open>Data model\<close>

text \<open>\<open>model.Fingerprint\<close> is a \<open>uint64\<close>; Go's \<open>int\<close> is 64 bits wide and \<open>++\<close> wraps.\<close>

type_synonym fingerprint = "64 word"
type_synonym go_int = "64 word"

text \<open>
  A \<open>time.Time\<close> is an instant; \<open>Before\<close> and \<open>After\<close> are the strict order on
  instants, here the order of \<open>int\<close>.
\<close>

type_synonym instant = int

text \<open>
  Modelled from the spec: \<open>types.Alert\<close> is declared outside this file. The code reads
  \<open>alert.Fingerprint()\<close>, \<open>StartsAt\<close> and \<open>EndsAt\<close> and calls \<open>old.Merge(alert)\<close>. The
  fingerprint, a hash of the alert's label set, is the field \<open>Fingerprint\<close>; what else
  an alert carries is \<open>Annotations\<close>. \<open>Merge\<close> is a parameter \<open>M\<close> of every function that
  calls it. The code handles \<open>*types.Alert\<close>; an alert of the model is the value behind
  a non-nil pointer.
\<close>

record alert =
  Fingerprint :: fingerprint
  StartsAt :: instant
  EndsAt :: instant
  Annotations :: "(string \<times> string) list"

type_synonym merge = "alert \<Rightarrow> alert \<Rightarrow> alert"

text \<open>\<open>provider.ErrNotFound\<close>, the only error value the file mentions.\<close>

datatype error = ErrNotFound

text \<open>
  A channel: its buffered elements (oldest first), its capacity, and whether it has
  been closed. A \<open>chan struct{}\<close> (\<open>done\<close>, \<open>stopGC\<close>) is a channel of capacity 0 whose
  buffer stays empty: the code only closes it and receives from it.
\<close>

record chan =
  ch_buf :: "alert list"
  ch_cap :: nat
  ch_closed :: bool

text \<open>
  \<open>listeningAlerts\<close>: the two channels of a listener, by address (channels are shared
  with the consumer that holds the iterator).
\<close>

record listeningAlerts =
  l_alerts :: nat
  l_done :: nat

text \<open>
  Modelled from the spec: \<open>provider.NewAlertIterator(ch, done, err)\<close> is declared
  outside this file; "given an outbound queue, a cancellation signal, and an optional
  startup error" it builds the iterator, here the record of the three.
\<close>

record alertIterator =
  it_ch :: nat
  it_done :: nat
  it_err :: "error option"

text \<open>
  \<open>Alerts\<close>, with the part of the world its methods act on: \<open>heap\<close> maps the address
  of every channel made so far to the channel (an address outside its domain is a nil
  channel), \<open>brk\<close> is the next free address, and \<open>marker\<close> is the state of the
  \<open>types.Marker\<close>: the fingerprints \<open>Delete\<close> has been called with, in call order.
  The maps \<open>alerts\<close> and \<open>listeners\<close> are association lists; Go leaves the iteration
  order of a map unspecified, the loops of the model run in list order.
\<close>

record Alerts =
  alerts :: "(fingerprint \<times> alert) list"
  marker :: "fingerprint list"
  intervalGC :: int
  stopGC :: nat
  listeners :: "(go_int \<times> listeningAlerts) list"
  nxt :: go_int
  heap :: "nat \<Rightarrow> chan option"
  brk :: nat

datatype 'a outcome = Returns 'a | Blocks | Panics

definition bind_outcome :: "'a outcome \<Rightarrow> ('a \<Rightarrow> 'b outcome) \<Rightarrow> 'b outcome" where
  "bind_outcome m f = (case m of Returns x \<Rightarrow> f x | Blocks \<Rightarrow> Blocks | Panics \<Rightarrow> Panics)"

subsection \<open>Channels\<close>

definition alertChannelLength :: int where
  "alertChannelLength = 200"

text \<open>\<open>make(chan T, n)\<close>: a fresh open channel with an empty buffer.\<close>

definition make_chan :: "nat \<Rightarrow> Alerts \<Rightarrow> nat \<times> Alerts" where
  "make_chan n s =
     (brk s, s\<lparr>heap := (heap s)(brk s \<mapsto> \<lparr>ch_buf = [], ch_cap = n, ch_closed = False\<rparr>),
               brk := Suc (brk s)\<rparr>)"

text \<open>\<open>close(c)\<close> panics on a nil channel and on a closed one.\<close>

definition chan_close :: "nat \<Rightarrow> Alerts \<Rightarrow> Alerts outcome" where
  "chan_close c s =
     (case heap s c of
        None \<Rightarrow> Panics
      | Some ch \<Rightarrow>
          if ch_closed ch then Panics
          else Returns (s\<lparr>heap := (heap s)(c \<mapsto> ch\<lparr>ch_closed := True\<rparr>)\<rparr>))"

text \<open>
  \<open>c <- x\<close> with no receiver waiting: it panics on a closed channel, appends to the
  buffer when there is room, and blocks otherwise (on a nil channel for ever).
\<close>

definition chan_send :: "nat \<Rightarrow> alert \<Rightarrow> Alerts \<Rightarrow> Alerts outcome" where
  "chan_send c x s =
     (case heap s c of
        None \<Rightarrow> Blocks
      | Some ch \<Rightarrow>
          if ch_closed ch then Panics
          else if length (ch_buf ch) < ch_cap ch
          then Returns (s\<lparr>heap := (heap s)(c \<mapsto> ch\<lparr>ch_buf := ch_buf ch @ [x]\<rparr>)\<rparr>)
          else Blocks)"

text \<open>
  Whether a communication can proceed, as \<open>select\<close> asks: a send can when the channel
  is closed (it then panics) or has room; a receive from a \<open>chan struct{}\<close> can when
  the channel is closed.
\<close>

definition send_ready :: "chan option \<Rightarrow> bool" where
  "send_ready c = (case c of None \<Rightarrow> False
                   | Some ch \<Rightarrow> ch_closed ch \<or> length (ch_buf ch) < ch_cap ch)"

definition recv_ready :: "chan option \<Rightarrow> bool" where
  "recv_ready c = (case c of None \<Rightarrow> False | Some ch \<Rightarrow> ch_closed ch)"

subsection \<open>NewAlerts, Close and max\<close>

text \<open>
  \<open>NewAlerts\<close> in a fresh world: \<open>stopGC\<close> is the first channel made. The marker is
  given by its state. The goroutine it starts is \<open>runGC\<close>, below.
\<close>

definition NewAlerts :: "fingerprint list \<Rightarrow> int \<Rightarrow> Alerts \<times> error option" where
  "NewAlerts m d =
     (\<lparr>alerts = [], marker = m, intervalGC = d, stopGC = 0, listeners = [], nxt = 0,
       heap = [0 \<mapsto> \<lparr>ch_buf = [], ch_cap = 0, ch_closed = False\<rparr>], brk = 1\<rparr>, None)"

definition Close :: "Alerts \<Rightarrow> (error option \<times> Alerts) outcome" where
  "Close s = bind_outcome (chan_close (stopGC s) s) (\<lambda>s'. Returns (None, s'))"

definition max_go :: "int \<Rightarrow> int \<Rightarrow> int" where
  "max_go a b = (if a > b then a else b)"

subsection \<open>getPending and Get\<close>

definition getPending :: "Alerts \<Rightarrow> alert list \<times> error option" where
  "getPending s = (map snd (alerts s), None)"

definition Get :: "Alerts \<Rightarrow> fingerprint \<Rightarrow> alert option \<times> error option" where
  "Get s fp =
     (case map_of (alerts s) fp of
        None \<Rightarrow> (None, Some ErrNotFound)
      | Some x \<Rightarrow> (Some x, None))"

subsection \<open>Put\<close>

text \<open>The overlap test of \<open>Put\<close>, on the stored alert \<open>old\<close> and the incoming one.\<close>

definition overlap :: "alert \<Rightarrow> alert \<Rightarrow> bool" where
  "overlap old x \<longleftrightarrow>
     (EndsAt x > StartsAt old \<and> EndsAt x < EndsAt old) \<or>
     (StartsAt x > StartsAt old \<and> StartsAt x < EndsAt old)"

text \<open>
  \<open>select { case l.alerts <- alert: case <-l.done: }\<close>. When both cases can proceed Go
  picks one at random: \<open>pick\<close> is that choice (\<open>True\<close> for the send). When neither
  can, the goroutine blocks.
\<close>

definition select_send :: "bool \<Rightarrow> listeningAlerts \<Rightarrow> alert \<Rightarrow> Alerts \<Rightarrow> Alerts outcome" where
  "select_send pick l x s =
     (let can_send = send_ready (heap s (l_alerts l));
          can_done = recv_ready (heap s (l_done l))
      in if can_send \<and> (pick \<or> \<not> can_done) then chan_send (l_alerts l) x s
         else if can_done then Returns s
         else Blocks)"

text \<open>The loop over \<open>a.listeners\<close>; \<open>pick i\<close> is the choice at listener \<open>i\<close>.\<close>

fun broadcast :: "(go_int \<Rightarrow> bool) \<Rightarrow> (go_int \<times> listeningAlerts) list \<Rightarrow> alert \<Rightarrow> Alerts
    \<Rightarrow> Alerts outcome" where
  "broadcast pick [] x s = Returns s"
| "broadcast pick ((i, l) # ls) x s =
     bind_outcome (select_send (pick i) l x s) (broadcast pick ls x)"

text \<open>The alert \<open>Put\<close> stores for an incoming alert: merged or as it came.\<close>

definition resolve :: "merge \<Rightarrow> Alerts \<Rightarrow> alert \<Rightarrow> alert" where
  "resolve M s x =
     (case map_of (alerts s) (Fingerprint x) of
        Some old \<Rightarrow> if overlap old x then M old x else x
      | None \<Rightarrow> x)"

text \<open>One iteration of the loop of \<open>Put\<close>.\<close>

definition Put_body :: "merge \<Rightarrow> (go_int \<Rightarrow> bool) \<Rightarrow> alert \<Rightarrow> Alerts \<Rightarrow> Alerts outcome" where
  "Put_body M pick x s =
     (let fp = Fingerprint x;
          x' = resolve M s x;
          s' = s\<lparr>alerts := AList.update fp x' (alerts s)\<rparr>
      in broadcast pick (listeners s') x' s')"

text \<open>The loop; \<open>pick k\<close> holds the choices made while the \<open>k\<close>-th alert is broadcast.\<close>

fun Put_loop :: "merge \<Rightarrow> (nat \<Rightarrow> go_int \<Rightarrow> bool) \<Rightarrow> nat \<Rightarrow> alert list \<Rightarrow> Alerts
    \<Rightarrow> Alerts outcome" where
  "Put_loop M pick k [] s = Returns s"
| "Put_loop M pick k (x # xs) s =
     bind_outcome (Put_body M (pick k) x s) (Put_loop M pick (Suc k) xs)"

definition Put :: "merge \<Rightarrow> (nat \<Rightarrow> go_int \<Rightarrow> bool) \<Rightarrow> Alerts \<Rightarrow> alert list
    \<Rightarrow> (error option \<times> Alerts) outcome" where
  "Put M pick s xs = bind_outcome (Put_loop M pick 0 xs s) (\<lambda>s'. Returns (None, s'))"

subsection \<open>Subscribe and GetPending\<close>

text \<open>\<open>for _, a := range alerts { ch <- a }\<close>\<close>

fun preload :: "nat \<Rightarrow> alert list \<Rightarrow> Alerts \<Rightarrow> Alerts outcome" where
  "preload c [] s = Returns s"
| "preload c (x # xs) s = bind_outcome (chan_send c x s) (preload c xs)"

definition NewAlertIterator :: "nat \<Rightarrow> nat \<Rightarrow> error option \<Rightarrow> alertIterator" where
  "NewAlertIterator c d e = \<lparr>it_ch = c, it_done = d, it_err = e\<rparr>"

definition Subscribe :: "Alerts \<Rightarrow> (alertIterator \<times> Alerts) outcome" where
  "Subscribe s =
     (let (xs, err) = getPending s;
          (c, s1) = make_chan (nat (max_go (int (length xs)) alertChannelLength)) s;
          (d, s2) = make_chan 0 s1
      in bind_outcome (preload c xs s2)
           (\<lambda>s3. let i = nxt s3;
                      s4 = s3\<lparr>nxt := nxt s3 + 1\<rparr>;
                      s5 = s4\<lparr>listeners :=
                             AList.update i \<lparr>l_alerts = c, l_done = d\<rparr> (listeners s4)\<rparr>
                  in Returns (NewAlertIterator c d err, s5)))"

text \<open>
  The goroutine \<open>GetPending\<close> starts: it sends the snapshot, leaving at once when
  \<open>done\<close> is chosen, and closes the queue on its way out (\<open>defer close(ch)\<close>).
\<close>

definition select_deliver :: "bool \<Rightarrow> nat \<Rightarrow> nat \<Rightarrow> alert \<Rightarrow> Alerts \<Rightarrow> (bool \<times> Alerts) outcome" where
  "select_deliver pick c d x s =
     (let can_send = send_ready (heap s c);
          can_done = recv_ready (heap s d)
      in if can_send \<and> (pick \<or> \<not> can_done)
         then bind_outcome (chan_send c x s) (\<lambda>s'. Returns (True, s'))
         else if can_done then Returns (False, s)
         else Blocks)"

fun deliver_loop :: "(nat \<Rightarrow> bool) \<Rightarrow> nat \<Rightarrow> nat \<Rightarrow> nat \<Rightarrow> alert list \<Rightarrow> Alerts \<Rightarrow> Alerts outcome" where
  "deliver_loop pick k c d [] s = Returns s"
| "deliver_loop pick k c d (x # xs) s =
     bind_outcome (select_deliver (pick k) c d x s)
       (\<lambda>(sent, s'). if sent then deliver_loop pick (Suc k) c d xs s' else Returns s')"

definition deliver :: "(nat \<Rightarrow> bool) \<Rightarrow> alertIterator \<Rightarrow> alert list \<Rightarrow> Alerts \<Rightarrow> Alerts outcome" where
  "deliver pick it xs s =
     bind_outcome (deliver_loop pick 0 (it_ch it) (it_done it) xs s) (chan_close (it_ch it))"

text \<open>
  \<open>GetPending\<close> returns the iterator; the snapshot is what the goroutine it started
  (\<open>deliver\<close>) is still to send.
\<close>

definition GetPending :: "Alerts \<Rightarrow> alertIterator \<times> alert list \<times> Alerts" where
  "GetPending s =
     (let (c, s1) = make_chan (nat alertChannelLength) s;
          (d, s2) = make_chan 0 s1;
          (xs, err) = getPending s2
      in (NewAlertIterator c d err, xs, s2))"

subsection \<open>The garbage collector\<close>

text \<open>
  The first loop of a sweep, over the entries \<open>es\<close> the map held when the loop began
  (the loop deletes none but the entry it is at). \<open>time.Now()\<close> is read anew for every
  entry: \<open>now k\<close> is the reading at the \<open>k\<close>-th entry visited.
\<close>

fun gc_alerts :: "(nat \<Rightarrow> instant) \<Rightarrow> nat \<Rightarrow> (fingerprint \<times> alert) list \<Rightarrow> Alerts \<Rightarrow> Alerts" where
  "gc_alerts now k [] s = s"
| "gc_alerts now k ((fp, x) # es) s =
     gc_alerts now (Suc k) es
       (if EndsAt x < now k
        then s\<lparr>alerts := AList.delete fp (alerts s), marker := marker s @ [fp]\<rparr>
        else s)"

text \<open>The second loop: \<open>select { case <-l.done: ... default: }\<close> per listener.\<close>

fun gc_listeners :: "(go_int \<times> listeningAlerts) list \<Rightarrow> Alerts \<Rightarrow> Alerts outcome" where
  "gc_listeners [] s = Returns s"
| "gc_listeners ((i, l) # ls) s =
     (if recv_ready (heap s (l_done l))
      then bind_outcome
             (chan_close (l_alerts l) (s\<lparr>listeners := AList.delete i (listeners s)\<rparr>))
             (gc_listeners ls)
      else gc_listeners ls s)"

definition gc_sweep :: "(nat \<Rightarrow> instant) \<Rightarrow> Alerts \<Rightarrow> Alerts outcome" where
  "gc_sweep now s =
     (let s1 = gc_alerts now 0 (alerts s) s
      in gc_listeners (listeners s1) s1)"


subsection \<open>The consumer, and runs of the provider\<close>

text \<open>
  Modelled from the spec: the consumer's side of an iterator is declared outside this
  file. "A listener is cancelled by its own consumer signaling a one-shot done
  indicator": the consumer closes \<open>done\<close>. It reads the queue by receiving from it: the
  oldest buffered alert, or nothing once the queue is closed and empty.
\<close>

definition cancel :: "nat \<Rightarrow> Alerts \<Rightarrow> Alerts outcome" where
  "cancel d s = chan_close d s"

definition chan_recv :: "nat \<Rightarrow> Alerts \<Rightarrow> (alert option \<times> Alerts) outcome" where
  "chan_recv c s =
     (case heap s c of
        None \<Rightarrow> Blocks
      | Some ch \<Rightarrow>
          (case ch_buf ch of
             x # xs \<Rightarrow> Returns (Some x, s\<lparr>heap := (heap s)(c \<mapsto> ch\<lparr>ch_buf := xs\<rparr>)\<rparr>)
           | [] \<Rightarrow> if ch_closed ch then Returns (None, s) else Blocks))"

text \<open>
  What can happen to a provider: the calls of its methods, a sweep of the collector,
  and the consumer of a registered listener cancelling or receiving. A run is a
  sequence of these, each carried out to its end before the next begins. So a run has
  \<open>Subscribe\<close> as one step (in the code other calls can come between its snapshot
  and its registration, which act on channels no one else holds yet), and no consumer
  acts in the middle of a \<open>Put\<close>.
\<close>

datatype call =
    Call_Put merge "nat \<Rightarrow> go_int \<Rightarrow> bool" "alert list"
  | Call_Get fingerprint
  | Call_Subscribe
  | Call_GetPending
  | Call_Close
  | GC_sweep "nat \<Rightarrow> instant"
  | Consumer_cancel go_int
  | Consumer_recv go_int

fun step :: "call \<Rightarrow> Alerts \<Rightarrow> Alerts outcome" where
  "step (Call_Put M pick xs) s = bind_outcome (Put M pick s xs) (\<lambda>r. Returns (snd r))"
| "step (Call_Get fp) s = Returns s"
| "step Call_Subscribe s = bind_outcome (Subscribe s) (\<lambda>r. Returns (snd r))"
| "step Call_GetPending s = Returns (snd (snd (GetPending s)))"
| "step Call_Close s = bind_outcome (Close s) (\<lambda>r. Returns (snd r))"
| "step (GC_sweep now) s = gc_sweep now s"
| "step (Consumer_cancel i) s =
     (case map_of (listeners s) i of
        None \<Rightarrow> Returns s
      | Some l \<Rightarrow> cancel (l_done l) s)"
| "step (Consumer_recv i) s =
     (case map_of (listeners s) i of
        None \<Rightarrow> Returns s
      | Some l \<Rightarrow> bind_outcome (chan_recv (l_alerts l) s) (\<lambda>r. Returns (snd r)))"

fun run :: "call list \<Rightarrow> Alerts \<Rightarrow> Alerts outcome" where
  "run [] s = Returns s"
| "run (c # cs) s = bind_outcome (step c s) (run cs)"

subsection \<open>Notions the statements use\<close>

text \<open>The queue and the \<open>done\<close> channel of every registered listener.\<close>

definition queues :: "(go_int \<times> listeningAlerts) list \<Rightarrow> nat list" where
  "queues ls = map (\<lambda>(i, l). l_alerts l) ls"

definition dones :: "(go_int \<times> listeningAlerts) list \<Rightarrow> nat list" where
  "dones ls = map (\<lambda>(i, l). l_done l) ls"

definition queue_open :: "Alerts \<Rightarrow> nat \<Rightarrow> bool" where
  "queue_open s c = (case heap s c of None \<Rightarrow> False | Some ch \<Rightarrow> \<not> ch_closed ch)"


text \<open>
  The states the provider can be in (\<open>NewAlerts\<close> gives one and every step of a run
  keeps it, see \<open>wf_NewAlerts\<close> and \<open>wf_run\<close>): the two maps have one entry per key,
  \<open>stopGC\<close> and the channels of the registered listeners are different channels that
  have been made, and no registered queue is closed.
\<close>

definition well_formed :: "Alerts \<Rightarrow> bool" where
  "well_formed s \<longleftrightarrow>
     distinct (map fst (alerts s)) \<and>
     distinct (map fst (listeners s)) \<and>
     distinct (stopGC s # queues (listeners s) @ dones (listeners s)) \<and>
     list_all (\<lambda>c. c < brk s \<and> heap s c \<noteq> None)
       (stopGC s # queues (listeners s) @ dones (listeners s)) \<and>
     list_all (queue_open s) (queues (listeners s))"

text \<open>Which channels exist and which of them are closed.\<close>

definition flags :: "Alerts \<Rightarrow> nat \<Rightarrow> bool option" where
  "flags s c = map_option ch_closed (heap s c)"

text \<open>
  A listener can take \<open>n\<close> more alerts without blocking the sender: it has cancelled,
  or its queue has \<open>n\<close> free places.
\<close>

definition can_take :: "Alerts \<Rightarrow> nat \<Rightarrow> listeningAlerts \<Rightarrow> bool" where
  "can_take s n l \<longleftrightarrow>
     recv_ready (heap s (l_done l)) \<or>
     (case heap s (l_alerts l) of None \<Rightarrow> False
      | Some ch \<Rightarrow> length (ch_buf ch) + n \<le> ch_cap ch)"

text \<open>
  The fingerprints the first loop of a sweep deletes, in order: those of the entries
  that ended before the clock reading taken for them.
\<close>

fun expired :: "(nat \<Rightarrow> instant) \<Rightarrow> nat \<Rightarrow> (fingerprint \<times> alert) list \<Rightarrow> fingerprint list" where
  "expired now k [] = []"
| "expired now k ((fp, x) # es) =
     (if EndsAt x < now k then fp # expired now (Suc k) es else expired now (Suc k) es)"

text \<open>The state \<open>Subscribe\<close> leaves (\<open>Subscribe_Returns\<close>).\<close>

definition subscribed :: "Alerts \<Rightarrow> Alerts" where
  "subscribed s =
     s\<lparr>heap := (heap s)
          (brk s \<mapsto> \<lparr>ch_buf = map snd (alerts s),
                      ch_cap = max (length (alerts s)) 200, ch_closed = False\<rparr>,
           Suc (brk s) \<mapsto> \<lparr>ch_buf = [], ch_cap = 0, ch_closed = False\<rparr>),
       brk := Suc (Suc (brk s)),
       nxt := nxt s + 1,
       listeners :=
         AList.update (nxt s) \<lparr>l_alerts = brk s, l_done = Suc (brk s)\<rparr> (listeners s)\<rparr>"


subsection \<open>Example values\<close>

text \<open>Concrete alerts, a merge function and states, for the instances below.\<close>

definition alertA :: alert where
  "alertA = \<lparr>Fingerprint = 7, StartsAt = 0, EndsAt = 60, Annotations = []\<rparr>"

definition alertB :: alert where
  "alertB = \<lparr>Fingerprint = 7, StartsAt = 10, EndsAt = 30,
              Annotations = [(''summary'', ''b'')]\<rparr>"

definition alertC :: alert where
  "alertC = \<lparr>Fingerprint = 7, StartsAt = - 5, EndsAt = 100,
              Annotations = [(''summary'', ''c'')]\<rparr>"

definition alertD :: alert where
  "alertD = \<lparr>Fingerprint = 9, StartsAt = 0, EndsAt = 20, Annotations = []\<rparr>"

definition merge_ex :: merge where
  "merge_ex old new = new\<lparr>StartsAt := min (StartsAt old) (StartsAt new)\<rparr>"

definition world0 :: Alerts where
  "world0 = fst (NewAlerts [] 10)"

definition world1 :: Alerts where
  "world1 = world0\<lparr>alerts := [(7, alertA)]\<rparr>"

definition world2 :: Alerts where
  "world2 = world0\<lparr>alerts := [(7, alertA), (9, alertD)]\<rparr>"

definition always_send :: "nat \<Rightarrow> go_int \<Rightarrow> bool" where
  "always_send k i = True"

text \<open>After \<open>Subscribe\<close> on the fresh provider: listener 0, queue 1, \<open>done\<close> 2.\<close>

definition world_sub :: Alerts where
  "world_sub = subscribed world0"

text \<open>The same with the queue full: 200 alerts put and none received.\<close>

definition world_full :: Alerts where
  "world_full =
     world_sub\<lparr>alerts := [(9, alertD)],
               heap := (heap world_sub)
                 (1 \<mapsto> \<lparr>ch_buf = replicate 200 alertD, ch_cap = 200, ch_closed = False\<rparr>)\<rparr>"

text \<open>The consumer of listener 0 has cancelled; no sweep has run since.\<close>

definition world_cancelled :: Alerts where
  "world_cancelled =
     world_sub\<lparr>heap := (heap world_sub)
                 (2 \<mapsto> \<lparr>ch_buf = [], ch_cap = 0, ch_closed = True\<rparr>)\<rparr>"


section \<open>Properties\<close>

subsection \<open>Outcomes, channels and the broadcast\<close>

lemma bind_outcome_simps [simp]:
  "bind_outcome (Returns x) f = f x"
  "bind_outcome Blocks f = Blocks"
  "bind_outcome Panics f = Panics"
  by (simp_all add: bind_outcome_def)

lemma bind_outcome_Returns_iff:
  "bind_outcome m f = Returns y \<longleftrightarrow> (\<exists>x. m = Returns x \<and> f x = Returns y)"
  by (cases m) simp_all

lemma chan_send_Returns:
  assumes "chan_send c x s = Returns s'"
  shows "\<exists>ch. heap s c = Some ch \<and> \<not> ch_closed ch \<and> length (ch_buf ch) < ch_cap ch \<and>
           s' = s\<lparr>heap := (heap s)(c \<mapsto> ch\<lparr>ch_buf := ch_buf ch @ [x]\<rparr>)\<rparr>"
  using assms by (auto simp: chan_send_def split: option.splits if_splits)

lemma select_send_Returns:
  assumes "select_send p l x s = Returns s'"
  shows "s' = s \<or> chan_send (l_alerts l) x s = Returns s'"
  using assms by (auto simp: select_send_def Let_def split: if_splits)

lemma select_send_frame:
  assumes "select_send p l x s = Returns s'"
  shows "alerts s' = alerts s \<and> marker s' = marker s \<and> listeners s' = listeners s \<and>
         nxt s' = nxt s \<and> stopGC s' = stopGC s \<and> brk s' = brk s \<and>
         intervalGC s' = intervalGC s"
  using select_send_Returns [OF assms] by (auto dest!: chan_send_Returns)

lemma broadcast_frame:
  "broadcast pick ls x s = Returns s' \<Longrightarrow>
     alerts s' = alerts s \<and> marker s' = marker s \<and> listeners s' = listeners s \<and>
     nxt s' = nxt s \<and> stopGC s' = stopGC s \<and> brk s' = brk s \<and>
     intervalGC s' = intervalGC s"
proof (induction ls arbitrary: s)
  case Nil
  then show ?case by simp
next
  case (Cons p ls)
  obtain i l where p: "p = (i, l)" by (cases p)
  from Cons.prems obtain s1 where s1: "select_send (pick i) l x s = Returns s1"
    and rest: "broadcast pick ls x s1 = Returns s'"
    by (auto simp: p bind_outcome_Returns_iff)
  from select_send_frame [OF s1] Cons.IH [OF rest] show ?case by simp
qed

subsection \<open>The store: Put and Get\<close>

lemma Put_body_alerts:
  assumes "Put_body M pick x s = Returns s'"
  shows "alerts s' = AList.update (Fingerprint x) (resolve M s x) (alerts s)"
  using broadcast_frame [of pick "listeners s" "resolve M s x"
      "s\<lparr>alerts := AList.update (Fingerprint x) (resolve M s x) (alerts s)\<rparr>" s'] assms
  by (simp add: Put_body_def Let_def)

lemma Put_body_no_merge:
  assumes "resolve M s x = resolve M' s x"
  shows "Put_body M pick x s = Put_body M' pick x s"
  using assms by (simp add: Put_body_def Let_def)

lemma Put_loop_append:
  "Put_loop M pick k (xs @ ys) s =
     bind_outcome (Put_loop M pick k xs s) (Put_loop M pick (k + length xs) ys)"
proof (induction xs arbitrary: k s)
  case Nil
  then show ?case by simp
next
  case (Cons x xs)
  show ?case
    by (cases "Put_body M (pick k) x s") (simp_all add: Cons.IH)
qed

lemma Put_single:
  "Put M pick s [x] = bind_outcome (Put_body M (pick 0) x s) (\<lambda>s'. Returns (None, s'))"
  by (cases "Put_body M (pick 0) x s") (simp_all add: Put_def)

lemma containment_no_overlap:
  "StartsAt x \<le> StartsAt old \<Longrightarrow> EndsAt old \<le> EndsAt x \<Longrightarrow> \<not> overlap old x"
  by (auto simp: overlap_def)

lemmas ex_defs = alertA_def alertB_def alertC_def alertD_def merge_ex_def world0_def
  world1_def world2_def NewAlerts_def always_send_def world_sub_def subscribed_def
  world_full_def world_cancelled_def

lemmas put_defs = Put_def Put_body_def resolve_def overlap_def select_send_def chan_send_def
  send_ready_def recv_ready_def Let_def

text \<open>
  C1. When \<open>Put\<close> reaches an alert \<open>x\<close> (after any alerts \<open>pre\<close> of the same call) and the
  store then holds \<open>old\<close> under the fingerprint of \<open>x\<close>, what is stored, and what \<open>Get\<close>
  returns once \<open>x\<close> is the last alert put, is \<open>Merge(old, x)\<close> when \<open>x.EndsAt\<close> or
  \<open>x.StartsAt\<close> lies strictly inside \<open>(old.StartsAt, old.EndsAt)\<close>, and \<open>x\<close> itself
  otherwise; and in that other case no merge is performed: the outcome of putting \<open>x\<close>
  is the same whatever \<open>Merge\<close> is.
\<close>

theorem Put_merge_policy:
  assumes pre: "Put M pick s pre = Returns (e0, s0)"
      and old: "map_of (alerts s0) (Fingerprint x) = Some old"
      and put: "Put M pick s (pre @ [x]) = Returns (e, s')"
  shows "(overlap old x \<longleftrightarrow>
            (StartsAt old < EndsAt x \<and> EndsAt x < EndsAt old) \<or>
            (StartsAt old < StartsAt x \<and> StartsAt x < EndsAt old)) \<and>
         Get s' (Fingerprint x) = (Some (if overlap old x then M old x else x), None) \<and>
         (\<not> overlap old x \<longrightarrow> (\<forall>M' p. Put M' p s0 [x] = Put M p s0 [x]))"
proof -
  from pre have l0: "Put_loop M pick 0 pre s = Returns s0"
    by (auto simp: Put_def bind_outcome_Returns_iff)
  from put have "Put_loop M pick 0 (pre @ [x]) s = Returns s'"
    by (auto simp: Put_def bind_outcome_Returns_iff)
  with l0 have "Put_body M (pick (length pre)) x s0 = Returns s'"
    by (simp add: Put_loop_append bind_outcome_Returns_iff)
  from Put_body_alerts [OF this]
  have "alerts s' = AList.update (Fingerprint x) (resolve M s0 x) (alerts s0)" .
  moreover have r: "resolve M s0 x = (if overlap old x then M old x else x)" for M
    using old by (simp add: resolve_def)
  ultimately have get: "Get s' (Fingerprint x) =
      (Some (if overlap old x then M old x else x), None)"
    by (simp add: Get_def update_conv')
  have nm: "Put M' p s0 [x] = Put M p s0 [x]" if "\<not> overlap old x" for M' p
  proof -
    from that have "resolve M' s0 x = resolve M s0 x" by (simp add: r)
    from Put_body_no_merge [OF this, of "p 0"] show ?thesis by (simp only: Put_single)
  qed
  have test: "overlap old x \<longleftrightarrow>
      (StartsAt old < EndsAt x \<and> EndsAt x < EndsAt old) \<or>
      (StartsAt old < StartsAt x \<and> StartsAt x < EndsAt old)"
    by (simp add: overlap_def)
  show ?thesis
  proof (intro conjI impI allI)
    show "overlap old x \<longleftrightarrow>
      (StartsAt old < EndsAt x \<and> EndsAt x < EndsAt old) \<or>
      (StartsAt old < StartsAt x \<and> StartsAt x < EndsAt old)" by (rule test)
    show "Get s' (Fingerprint x) = (Some (if overlap old x then M old x else x), None)"
      by (rule get)
    show "Put M' p s0 [x] = Put M p s0 [x]" if "\<not> overlap old x" for M' p
      using that by (rule nm)
  qed
qed

theorem Put_merge_policy_witness:
  "(\<exists>s'. Put merge_ex always_send world0 [alertA, alertB] = Returns (None, s') \<and>
         Get s' 7 = (Some (merge_ex alertA alertB), None)) \<and>
   (\<exists>s0 s'. Put merge_ex always_send world0 [alertA] = Returns (None, s0) \<and>
         Put merge_ex always_send world0 [alertA, alertC] = Returns (None, s') \<and>
         Get s' 7 = (Some alertC, None) \<and>
         Put (\<lambda>old new. old) always_send s0 [alertC] = Put merge_ex always_send s0 [alertC])"
proof -
  obtain s0 where 0: "Put merge_ex always_send world0 [alertA] = Returns (None, s0)"
    and 1: "map_of (alerts s0) (Fingerprint alertB) = Some alertA"
    and 4: "map_of (alerts s0) (Fingerprint alertC) = Some alertA"
    by (simp add: ex_defs put_defs)
  obtain s' where
    2: "Put merge_ex always_send world0 ([alertA] @ [alertB]) = Returns (None, s')"
    by (simp add: ex_defs put_defs)
  obtain s'' where
    3: "Put merge_ex always_send world0 ([alertA] @ [alertC]) = Returns (None, s'')"
    by (simp add: ex_defs put_defs)
  have o: "overlap alertA alertB" "\<not> overlap alertA alertC"
    by (simp_all add: overlap_def alertA_def alertB_def alertC_def)
  have fp: "Fingerprint alertB = 7" "Fingerprint alertC = 7"
    by (simp_all add: alertB_def alertC_def)
  from Put_merge_policy [OF 0 1 2]
  have "Get s' (Fingerprint alertB) =
      (Some (if overlap alertA alertB then merge_ex alertA alertB else alertB), None)"
    by (rule conjunct1 [OF conjunct2])
  then have g1: "Get s' 7 = (Some (merge_ex alertA alertB), None)"
    by (simp only: o fp if_True)
  from Put_merge_policy [OF 0 4 3]
  have "Get s'' (Fingerprint alertC) =
      (Some (if overlap alertA alertC then merge_ex alertA alertC else alertC), None)"
    by (rule conjunct1 [OF conjunct2])
  then have g2: "Get s'' 7 = (Some alertC, None)"
    by (simp only: o fp if_False)
  from Put_merge_policy [OF 0 4 3]
  have "\<not> overlap alertA alertC \<longrightarrow>
      (\<forall>M' p. Put M' p s0 [alertC] = Put merge_ex p s0 [alertC])"
    by (rule conjunct2 [OF conjunct2])
  with o(2) have "\<forall>M' p. Put M' p s0 [alertC] = Put merge_ex p s0 [alertC]" by (rule rev_mp)
  then have nm: "Put (\<lambda>old new. old) always_send s0 [alertC] =
      Put merge_ex always_send s0 [alertC]"
    by blast
  from 2 have put_b: "Put merge_ex always_send world0 [alertA, alertB] = Returns (None, s')"
    by (simp only: append.simps)
  from 3 have put_c: "Put merge_ex always_send world0 [alertA, alertC] = Returns (None, s'')"
    by (simp only: append.simps)
  from put_b g1 0 put_c g2 nm show ?thesis by blast
qed

text \<open>
  C2. When the incoming alert \<open>x\<close> starts no later and ends no earlier than the stored
  alert \<open>old\<close> of the same fingerprint, the overlap test fails: \<open>Put\<close> stores \<open>x\<close> itself,
  and its outcome is the same whatever \<open>Merge\<close> is, that is, \<open>Merge\<close> is not consulted.
\<close>

theorem Put_containment_replaces:
  assumes old: "map_of (alerts s) (Fingerprint x) = Some old"
      and st: "StartsAt x \<le> StartsAt old" and en: "EndsAt old \<le> EndsAt x"
  shows "\<not> overlap old x \<and>
         (\<forall>M'. Put M' pick s [x] = Put M pick s [x]) \<and>
         (\<forall>e s'. Put M pick s [x] = Returns (e, s') \<longrightarrow>
            Get s' (Fingerprint x) = (Some x, None))"
proof -
  have no: "\<not> overlap old x" using st en by (rule containment_no_overlap)
  have indep: "Put M' pick s [x] = Put M pick s [x]" for M'
    using Put_body_no_merge [of M' s x M "pick 0"] old no
    by (simp add: Put_single resolve_def)
  have "Get s' (Fingerprint x) = (Some x, None)"
    if "Put M pick s [x] = Returns (e, s')" for e s'
  proof -
    from that have "Put_body M (pick 0) x s = Returns s'"
      by (auto simp: Put_single bind_outcome_Returns_iff)
    from Put_body_alerts [OF this] old no show ?thesis
      by (simp add: Get_def update_conv' resolve_def)
  qed
  with no indep show ?thesis by blast
qed

theorem Put_containment_replaces_witness:
  "\<not> overlap alertA alertC \<and>
   Put (\<lambda>old new. old) (\<lambda>_ _. True) world1 [alertC] =
     Put merge_ex (\<lambda>_ _. True) world1 [alertC] \<and>
   (\<exists>s'. Put merge_ex (\<lambda>_ _. True) world1 [alertC] = Returns (None, s') \<and>
         Get s' 7 = (Some alertC, None))"
proof -
  have 0: "map_of (alerts world1) (Fingerprint alertC) = Some alertA"
    by (simp add: ex_defs)
  have 1: "StartsAt alertC \<le> StartsAt alertA" and 2: "EndsAt alertA \<le> EndsAt alertC"
    by (simp_all add: ex_defs)
  obtain s' where 3: "Put merge_ex (\<lambda>_ _. True) world1 [alertC] = Returns (None, s')"
    by (simp add: ex_defs put_defs)
  from Put_containment_replaces [OF 0 1 2, of "\<lambda>_ _. True" merge_ex] 3 show ?thesis
    by (simp add: alertC_def)
qed

text \<open>
  C3. When the store has no entry under the fingerprint of \<open>A\<close>, after \<open>Put(A)\<close> the
  lookup \<open>Get\<close> of that fingerprint returns exactly \<open>A\<close>, with no error.
\<close>

theorem Put_fresh_then_Get:
  assumes new: "map_of (alerts s) (Fingerprint x) = None"
      and put: "Put M pick s [x] = Returns (e, s')"
  shows "Get s' (Fingerprint x) = (Some x, None)"
proof -
  from put have "Put_body M (pick 0) x s = Returns s'"
    by (auto simp: Put_single bind_outcome_Returns_iff)
  from Put_body_alerts [OF this] new show ?thesis
    by (simp add: Get_def update_conv' resolve_def)
qed

theorem Put_fresh_then_Get_witness:
  "\<exists>s'. Put merge_ex (\<lambda>_ _. True) world1 [alertD] = Returns (None, s') \<and>
        Get s' 9 = (Some alertD, None)"
proof -
  have 0: "map_of (alerts world1) (Fingerprint alertD) = None"
    by (simp add: ex_defs)
  obtain s' where 1: "Put merge_ex (\<lambda>_ _. True) world1 [alertD] = Returns (None, s')"
    by (simp add: ex_defs put_defs)
  from Put_fresh_then_Get [OF 0 1] 1 show ?thesis
    by (simp add: alertD_def)
qed

text \<open>
  C4. \<open>Get(fp)\<close> returns \<open>ErrNotFound\<close> (and no alert) exactly when the store has no
  entry under \<open>fp\<close>; otherwise it returns the stored alert and no error.
\<close>

theorem Get_NotFound_iff_absent:
  "(snd (Get s fp) = Some ErrNotFound \<longleftrightarrow> fp \<notin> fst ` set (alerts s)) \<and>
   (Get s fp = (None, Some ErrNotFound) \<longleftrightarrow> fp \<notin> fst ` set (alerts s)) \<and>
   (\<forall>x. map_of (alerts s) fp = Some x \<longrightarrow> Get s fp = (Some x, None)) \<and>
   (fp \<in> fst ` set (alerts s) \<longrightarrow>
      (\<exists>x. (fp, x) \<in> set (alerts s) \<and> Get s fp = (Some x, None)))"
  by (force simp: Get_def map_of_eq_None_iff split: option.splits dest: map_of_SomeD)

theorem Get_NotFound_iff_absent_witness:
  "Get world1 7 = (Some alertA, None) \<and> Get world1 9 = (None, Some ErrNotFound)"
proof -
  have 0: "map_of (alerts world1) 7 = Some alertA" and 1: "9 \<notin> fst ` set (alerts world1)"
    by (simp_all add: ex_defs)
  from Get_NotFound_iff_absent [of world1 7] Get_NotFound_iff_absent [of world1 9] 0 1
  show ?thesis by blast
qed

subsection \<open>The sweep of the store\<close>

lemma gc_alerts_eq:
  "gc_alerts now k es s =
     s\<lparr>alerts := filter (\<lambda>(fp, x). fp \<notin> set (expired now k es)) (alerts s),
       marker := marker s @ expired now k es\<rparr>"
proof (induction es arbitrary: k s)
  case Nil
  then show ?case by simp
next
  case (Cons e es)
  obtain fp x where e: "e = (fp, x)" by (cases e)
  show ?case
  proof (cases "EndsAt x < now k")
    case True
    have "filter (\<lambda>(fp', x). fp' \<notin> set (expired now (Suc k) es)) (AList.delete fp (alerts s)) =
          filter (\<lambda>(fp', x). fp' \<notin> set (fp # expired now (Suc k) es)) (alerts s)"
      by (auto simp: AList.delete_eq intro: filter_cong)
    with True show ?thesis by (simp add: e Cons.IH)
  next
    case False
    then show ?thesis by (simp add: e Cons.IH)
  qed
qed

lemma expired_subset: "set (expired now k es) \<subseteq> fst ` set es"
  by (induction now k es rule: expired.induct) auto

lemma expired_count:
  assumes "distinct (map fst es)" "j < length es" "es ! j = (fp, x)"
  shows "count_list (expired now k es) fp = (if EndsAt x < now (k + j) then 1 else 0)"
  using assms
proof (induction es arbitrary: k j)
  case Nil
  then show ?case by simp
next
  case (Cons e es)
  obtain fp' x' where e: "e = (fp', x')" by (cases e)
  show ?case
  proof (cases j)
    case 0
    with Cons.prems have eq: "fp' = fp" "x' = x" by (simp_all add: e)
    from Cons.prems have "fp \<notin> fst ` set es" by (simp add: e eq)
    with expired_subset [of now "Suc k" es] have "fp \<notin> set (expired now (Suc k) es)" by blast
    then have "count_list (expired now (Suc k) es) fp = 0" by (simp add: count_list_0_iff)
    with 0 show ?thesis by (simp add: e eq)
  next
    case (Suc j')
    with Cons.prems have j': "j' < length es" "es ! j' = (fp, x)" "distinct (map fst es)"
      by (simp_all add: e)
    then have "(fp, x) \<in> set es" by (metis nth_mem)
    then have "fp \<in> fst ` set es" by force
    with Cons.prems have "fp' \<noteq> fp" by (auto simp: e)
    with Cons.IH [OF j'(3) j'(1) j'(2), of "Suc k"] Suc show ?thesis by (simp add: e)
  qed
qed

lemma chan_close_frame:
  "chan_close c s = Returns s' \<Longrightarrow>
     alerts s' = alerts s \<and> marker s' = marker s \<and> listeners s' = listeners s \<and>
     nxt s' = nxt s \<and> stopGC s' = stopGC s \<and> brk s' = brk s \<and> intervalGC s' = intervalGC s"
  by (auto simp: chan_close_def split: option.splits if_splits)

lemma gc_listeners_frame:
  "gc_listeners ls s = Returns s' \<Longrightarrow>
     alerts s' = alerts s \<and> marker s' = marker s \<and> nxt s' = nxt s \<and>
     stopGC s' = stopGC s \<and> brk s' = brk s \<and> intervalGC s' = intervalGC s"
proof (induction ls arbitrary: s)
  case Nil
  then show ?case by simp
next
  case (Cons p ls)
  obtain i l where p: "p = (i, l)" by (cases p)
  show ?case
  proof (cases "recv_ready (heap s (l_done l))")
    case True
    with Cons.prems obtain s1 where
      s1: "chan_close (l_alerts l) (s\<lparr>listeners := AList.delete i (listeners s)\<rparr>) = Returns s1"
      and rest: "gc_listeners ls s1 = Returns s'"
      by (auto simp: p bind_outcome_Returns_iff)
    from chan_close_frame [OF s1] Cons.IH [OF rest] show ?thesis by simp
  next
    case False
    with Cons.prems have "gc_listeners ls s = Returns s'" by (simp add: p)
    from Cons.IH [OF this] show ?thesis .
  qed
qed

text \<open>
  C5. In a sweep over a store with one entry per fingerprint, the entry visited \<open>j\<close>-th
  is removed exactly when its \<open>EndsAt\<close> is strictly before \<open>now j\<close>, the \<open>time.Now()\<close> the
  sweep reads for it (the claim's "now"; with a clock that stands still during the
  sweep, one instant). \<open>Marker.Delete\<close> is called exactly once with the fingerprint of
  each removed entry (the calls \<open>ds\<close> the sweep appends to the marker's log) and with
  no other fingerprint, and every other entry stays in the store as it was. The second
  loop of the sweep changes neither the store nor the marker.
\<close>

theorem gc_sweep_removes_expired:
  assumes dist: "distinct (map fst (alerts s))"
  shows "\<exists>ds. marker (gc_alerts now 0 (alerts s) s) = marker s @ ds \<and>
           alerts (gc_alerts now 0 (alerts s) s) = filter (\<lambda>(fp, x). fp \<notin> set ds) (alerts s) \<and>
           (\<forall>j<length (alerts s).
              (EndsAt (snd (alerts s ! j)) < now j \<longrightarrow>
                 map_of (alerts (gc_alerts now 0 (alerts s) s)) (fst (alerts s ! j)) = None \<and>
                 count_list ds (fst (alerts s ! j)) = 1) \<and>
              (\<not> EndsAt (snd (alerts s ! j)) < now j \<longrightarrow>
                 map_of (alerts (gc_alerts now 0 (alerts s) s)) (fst (alerts s ! j)) =
                   Some (snd (alerts s ! j)) \<and>
                 count_list ds (fst (alerts s ! j)) = 0)) \<and>
           (\<forall>fp. fp \<notin> fst ` set (alerts s) \<longrightarrow> count_list ds fp = 0) \<and>
           (\<forall>s'. gc_sweep now s = Returns s' \<longrightarrow>
              alerts s' = alerts (gc_alerts now 0 (alerts s) s) \<and>
              marker s' = marker (gc_alerts now 0 (alerts s) s))"
proof -
  let ?E = "expired now 0 (alerts s)"
  let ?s1 = "gc_alerts now 0 (alerts s) s"
  have s1: "?s1 = s\<lparr>alerts := filter (\<lambda>(fp, x). fp \<notin> set ?E) (alerts s), marker := marker s @ ?E\<rparr>"
    by (rule gc_alerts_eq)
  have cnt: "count_list ?E (fst (alerts s ! j)) = (if EndsAt (snd (alerts s ! j)) < now j then 1 else 0)"
    if "j < length (alerts s)" for j
    using expired_count [OF dist that, of "fst (alerts s ! j)" "snd (alerts s ! j)" now 0] by simp
  have look: "map_of (alerts ?s1) (fst (alerts s ! j)) =
      (if EndsAt (snd (alerts s ! j)) < now j then None else Some (snd (alerts s ! j)))"
    if j: "j < length (alerts s)" for j
  proof -
    let ?fp = "fst (alerts s ! j)" and ?x = "snd (alerts s ! j)"
    have mem: "(?fp, ?x) \<in> set (alerts s)" using j by (metis nth_mem prod.collapse)
    with dist have m: "map_of (alerts s) ?fp = Some ?x" by simp
    show ?thesis
    proof (cases "EndsAt ?x < now j")
      case True
      with cnt [OF j] have "?fp \<in> set ?E" by (metis count_list_0_iff zero_neq_one)
      then have "?fp \<notin> fst ` set (alerts ?s1)" by (auto simp: s1)
      with True show ?thesis by (simp add: map_of_eq_None_iff)
    next
      case False
      with cnt [OF j] have "?fp \<notin> set ?E" by (simp add: count_list_0_iff)
      with m have "map_of (filter (\<lambda>(fp, x). fp \<notin> set ?E) (alerts s)) ?fp = Some ?x"
        using map_of_filter_in [of "alerts s" ?fp ?x "\<lambda>fp x. fp \<notin> set ?E"] by simp
      with False show ?thesis by (simp add: s1)
    qed
  qed
  have out: "count_list ?E fp = 0" if "fp \<notin> fst ` set (alerts s)" for fp
    using that expired_subset [of now 0 "alerts s"] by (auto simp: count_list_0_iff)
  have sweep: "alerts s' = alerts ?s1 \<and> marker s' = marker ?s1" if "gc_sweep now s = Returns s'" for s'
    using gc_listeners_frame [of "listeners ?s1" ?s1 s'] that by (simp add: gc_sweep_def Let_def)
  have m: "marker ?s1 = marker s @ ?E"
    and a: "alerts ?s1 = filter (\<lambda>(fp, x). fp \<notin> set ?E) (alerts s)"
    by (simp_all add: s1)
  show ?thesis
  proof (intro exI [of _ ?E] conjI allI impI)
    show "marker ?s1 = marker s @ ?E" by (rule m)
    show "alerts ?s1 = filter (\<lambda>(fp, x). fp \<notin> set ?E) (alerts s)" by (rule a)
  qed (simp_all only: cnt look out sweep if_True if_False simp_thms)
qed

theorem gc_sweep_removes_expired_witness:
  "\<exists>ds. marker (gc_alerts (\<lambda>_. 50) 0 (alerts world2) world2) = ds \<and>
     count_list ds 9 = 1 \<and> count_list ds 7 = 0 \<and>
     map_of (alerts (gc_alerts (\<lambda>_. 50) 0 (alerts world2) world2)) 9 = None \<and>
     map_of (alerts (gc_alerts (\<lambda>_. 50) 0 (alerts world2) world2)) 7 = Some alertA"
proof -
  have d: "distinct (map fst (alerts world2))" by (simp add: ex_defs)
  have a: "alerts world2 = [(7, alertA), (9, alertD)]" and m: "marker world2 = []"
    by (simp_all add: ex_defs)
  from gc_sweep_removes_expired [OF d, of "\<lambda>_. 50"] obtain ds where
    1: "marker (gc_alerts (\<lambda>_. 50) 0 (alerts world2) world2) = marker world2 @ ds"
    and 2: "\<forall>j<length (alerts world2).
              (EndsAt (snd (alerts world2 ! j)) < 50 \<longrightarrow>
                 map_of (alerts (gc_alerts (\<lambda>_. 50) 0 (alerts world2) world2)) (fst (alerts world2 ! j)) = None \<and>
                 count_list ds (fst (alerts world2 ! j)) = 1) \<and>
              (\<not> EndsAt (snd (alerts world2 ! j)) < 50 \<longrightarrow>
                 map_of (alerts (gc_alerts (\<lambda>_. 50) 0 (alerts world2) world2)) (fst (alerts world2 ! j)) =
                   Some (snd (alerts world2 ! j)) \<and>
                 count_list ds (fst (alerts world2 ! j)) = 0)"
    by blast
  from 2 [rule_format, of 0] 2 [rule_format, of 1] 1
  show ?thesis by (simp add: a m alertA_def alertD_def)
qed

subsection \<open>Subscribe returns\<close>

lemma max_go_max: "max_go a b = max a b"
  by (simp add: max_go_def max_def)

lemma preload_room:
  assumes "heap s c = Some ch" "\<not> ch_closed ch" "length (ch_buf ch) + length xs \<le> ch_cap ch"
  shows "preload c xs s = Returns (s\<lparr>heap := (heap s)(c \<mapsto> ch\<lparr>ch_buf := ch_buf ch @ xs\<rparr>)\<rparr>)"
  using assms
proof (induction xs arbitrary: s ch)
  case Nil
  then show ?case by (simp add: fun_upd_idem)
next
  case (Cons x xs)
  let ?ch = "ch\<lparr>ch_buf := ch_buf ch @ [x]\<rparr>"
  let ?s = "s\<lparr>heap := (heap s)(c \<mapsto> ?ch)\<rparr>"
  have send: "chan_send c x s = Returns ?s"
    using Cons.prems by (simp add: chan_send_def)
  have "preload c xs ?s = Returns (?s\<lparr>heap := (heap ?s)(c \<mapsto> ?ch\<lparr>ch_buf := ch_buf ?ch @ xs\<rparr>)\<rparr>)"
    by (rule Cons.IH) (use Cons.prems in simp_all)
  then have "preload c xs ?s = Returns (s\<lparr>heap := (heap s)(c \<mapsto> ch\<lparr>ch_buf := ch_buf ch @ x # xs\<rparr>)\<rparr>)"
    by simp
  then show ?case by (simp only: preload.simps send bind_outcome_simps)
qed

lemma Subscribe_Returns:
  "Subscribe s = Returns (\<lparr>it_ch = brk s, it_done = Suc (brk s), it_err = None\<rparr>, subscribed s)"
proof -
  let ?n = "nat (max_go (int (length (map snd (alerts s)))) alertChannelLength)"
  let ?ch = "\<lparr>ch_buf = [], ch_cap = ?n, ch_closed = False\<rparr>"
  let ?s2 = "s\<lparr>heap := (heap s)(brk s \<mapsto> ?ch, Suc (brk s) \<mapsto> \<lparr>ch_buf = [], ch_cap = 0, ch_closed = False\<rparr>),
               brk := Suc (Suc (brk s))\<rparr>"
  have n: "nat (max_go (int (length (alerts s))) alertChannelLength) = max (length (alerts s)) 200"
    by (simp add: max_go_max alertChannelLength_def)
  have "preload (brk s) (map snd (alerts s)) ?s2 =
          Returns (?s2\<lparr>heap := (heap ?s2)(brk s \<mapsto> ?ch\<lparr>ch_buf := ch_buf ?ch @ map snd (alerts s)\<rparr>)\<rparr>)"
    by (rule preload_room) (simp_all add: n)
  then show ?thesis
    by (simp add: Subscribe_def getPending_def make_chan_def Let_def NewAlertIterator_def n
          fun_upd_twist subscribed_def)
qed

subsection \<open>Put neither fails nor panics\<close>

lemma queue_open_flags: "queue_open s c \<longleftrightarrow> flags s c = Some False"
  by (auto simp: queue_open_def flags_def split: option.splits)


lemma queue_open_cong: "flags s' = flags s \<Longrightarrow> queue_open s' = queue_open s"
  by (simp add: fun_eq_iff queue_open_flags)

lemma chan_send_flags:
  "chan_send c x s = Returns s' \<Longrightarrow> flags s' = flags s"
  by (auto dest!: chan_send_Returns simp: flags_def fun_eq_iff)

lemma select_send_flags:
  "select_send p l x s = Returns s' \<Longrightarrow> flags s' = flags s"
  using select_send_Returns [of p l x s s'] by (auto dest: chan_send_flags)

lemma broadcast_flags:
  "broadcast pick ls x s = Returns s' \<Longrightarrow> flags s' = flags s"
proof (induction ls arbitrary: s)
  case Nil
  then show ?case by simp
next
  case (Cons p ls)
  obtain i l where p: "p = (i, l)" by (cases p)
  from Cons.prems obtain s1 where s1: "select_send (pick i) l x s = Returns s1"
    and rest: "broadcast pick ls x s1 = Returns s'"
    by (auto simp: p bind_outcome_Returns_iff)
  from select_send_flags [OF s1] Cons.IH [OF rest] show ?case by simp
qed













lemma can_take_less: "can_take s (Suc n) l \<Longrightarrow> can_take s n l"
  by (auto simp: can_take_def split: option.splits)









subsection \<open>The sweep of the registry\<close>

lemma chan_close_Returns:
  assumes "chan_close c s = Returns s'"
  shows "\<exists>ch. heap s c = Some ch \<and> \<not> ch_closed ch \<and>
           s' = s\<lparr>heap := (heap s)(c \<mapsto> ch\<lparr>ch_closed := True\<rparr>)\<rparr>"
  using assms by (auto simp: chan_close_def split: option.splits if_splits)


lemma chan_close_flags:
  "chan_close c s = Returns s' \<Longrightarrow> flags s' = (flags s)(c \<mapsto> True)"
  by (auto dest!: chan_close_Returns simp: flags_def fun_eq_iff)


text \<open>What the second loop of a sweep does to the listeners it visits.\<close>

lemma flags_listeners_update [simp]: "flags (s\<lparr>listeners := ls\<rparr>) = flags s"
  by (simp add: flags_def fun_eq_iff)

lemma flags_alerts_update [simp]: "flags (s\<lparr>alerts := xs\<rparr>) = flags s"
  by (simp add: flags_def fun_eq_iff)

lemma gc_listeners_Cons:
  assumes "gc_listeners ((i, l) # ls) s = Returns s'"
  obtains (closed) s2 where "recv_ready (heap s (l_done l))"
      "chan_close (l_alerts l) (s\<lparr>listeners := AList.delete i (listeners s)\<rparr>) = Returns s2"
      "gc_listeners ls s2 = Returns s'"
    | (kept) "\<not> recv_ready (heap s (l_done l))" "gc_listeners ls s = Returns s'"
  using assms by (cases "recv_ready (heap s (l_done l))") (auto simp: bind_outcome_Returns_iff)


lemma gc_listeners_subset:
  "gc_listeners ls s = Returns s' \<Longrightarrow> set (listeners s') \<subseteq> set (listeners s)"
proof (induction ls arbitrary: s)
  case Nil
  then show ?case by simp
next
  case (Cons p ls)
  obtain i l where p: "p = (i, l)" by (cases p)
  from Cons.prems [unfolded p] show ?case
  proof (cases rule: gc_listeners_Cons)
    case (closed s2)
    from chan_close_frame [OF closed(2)]
    have "set (listeners s2) \<subseteq> set (listeners s)" by (auto simp: AList.delete_eq)
    with Cons.IH [OF closed(3)] show ?thesis by blast
  next
    case kept
    from Cons.IH [OF kept(2)] show ?thesis .
  qed
qed




subsection \<open>Subscribe and GetPending\<close>

text \<open>
  C7. \<open>Subscribe\<close> makes the queue with capacity \<open>max(len(snapshot), 200)\<close>, and \<open>max\<close>
  is the maximum. The preload loop, run on the queue just made, returns: none of its
  sends blocks. So \<open>Subscribe\<close> always returns, and the queue then holds the whole
  snapshot within that capacity.
\<close>

theorem Subscribe_queue_capacity:
  "max_go (int (length (fst (getPending s)))) alertChannelLength =
     int (max (length (fst (getPending s))) 200) \<and>
   (\<exists>it s'. Subscribe s = Returns (it, s') \<and>
      heap s' (it_ch it) =
        Some \<lparr>ch_buf = fst (getPending s),
              ch_cap = max (length (fst (getPending s))) 200,
              ch_closed = False\<rparr>) \<and>
   (\<exists>s3. preload (brk s) (fst (getPending s))
            (snd (make_chan 0 (snd (make_chan
               (nat (max_go (int (length (fst (getPending s)))) alertChannelLength)) s)))) =
          Returns s3)"
proof -
  let ?n = "nat (max_go (int (length (fst (getPending s)))) alertChannelLength)"
  let ?s2 = "snd (make_chan 0 (snd (make_chan ?n s)))"
  have n: "?n = max (length (alerts s)) 200"
    by (simp add: max_go_max alertChannelLength_def getPending_def)
  have "preload (brk s) (fst (getPending s)) ?s2 =
     Returns (?s2\<lparr>heap := (heap ?s2)(brk s \<mapsto>
        \<lparr>ch_buf = [], ch_cap = ?n, ch_closed = False\<rparr>
          \<lparr>ch_buf := ch_buf \<lparr>ch_buf = [], ch_cap = ?n, ch_closed = False\<rparr> @ fst (getPending s)\<rparr>)\<rparr>)"
    by (rule preload_room) (simp_all add: make_chan_def n, simp add: getPending_def)
  then have "\<exists>s3. preload (brk s) (fst (getPending s)) ?s2 = Returns s3" by blast
  then show ?thesis
    by (simp add: Subscribe_Returns subscribed_def getPending_def max_go_max
        alertChannelLength_def)
qed

text \<open>
  C10. \<open>getPending\<close> always returns a nil error, and the iterators of \<open>Subscribe\<close> and
  \<open>GetPending\<close> are built with it: both calls return an iterator whose startup error
  is nil, in every state.
\<close>

theorem snapshot_never_fails:
  "snd (getPending s) = None \<and>
   (\<exists>it s'. Subscribe s = Returns (it, s') \<and> it_err it = None) \<and>
   it_err (fst (GetPending s)) = None"
  by (simp add: Subscribe_Returns getPending_def GetPending_def make_chan_def
        NewAlertIterator_def Let_def)

subsection \<open>A cancelled listener\<close>

lemma Put_loop_frame:
  "Put_loop M pick k xs s = Returns s' \<Longrightarrow>
     listeners s' = listeners s \<and> brk s' = brk s \<and> stopGC s' = stopGC s \<and>
     marker s' = marker s \<and> nxt s' = nxt s \<and> flags s' = flags s"
proof (induction xs arbitrary: k s)
  case Nil
  then show ?case by simp
next
  case (Cons x xs)
  from Cons.prems obtain s1 where b: "Put_body M (pick k) x s = Returns s1"
    and r: "Put_loop M pick (Suc k) xs s1 = Returns s'"
    by (auto simp: bind_outcome_Returns_iff)
  let ?s = "s\<lparr>alerts := AList.update (Fingerprint x) (resolve M s x) (alerts s)\<rparr>"
  from b have bc: "broadcast (pick k) (listeners ?s) (resolve M s x) ?s = Returns s1"
    by (simp add: Put_body_def Let_def)
  from broadcast_frame [OF bc] broadcast_flags [OF bc] Cons.IH [OF r]
  show ?case by simp
qed


lemma queues_update_subset:
  "set (queues (AList.update k v ls)) \<subseteq> insert (l_alerts v) (set (queues ls))"
  by (induction ls) (auto simp: queues_def)

lemma queues_delete_subset:
  "set (queues (AList.delete k ls)) \<subseteq> set (queues ls)"
  by (auto simp: queues_def AList.delete_eq)

lemma chan_recv_Returns:
  assumes "chan_recv c s = Returns (r, s')"
  shows "flags s' = flags s \<and> listeners s' = listeners s \<and> brk s' = brk s \<and>
         stopGC s' = stopGC s \<and> alerts s' = alerts s \<and>
         (\<forall>c'. c' \<noteq> c \<longrightarrow> heap s' c' = heap s c')"
  using assms
  by (auto simp: chan_recv_def flags_def fun_eq_iff split: option.splits list.splits if_splits)



lemma same_queue_same_listener:
  assumes "distinct (queues ls)" "(i, l) \<in> set ls" "(j, l') \<in> set ls" "l_alerts l = l_alerts l'"
  shows "(i, l) = (j, l')"
proof -
  from assms(1) have "inj_on (\<lambda>(i, l). l_alerts l) (set ls)"
    by (simp add: queues_def distinct_map)
  from inj_onD [OF this, of "(i, l)" "(j, l')"] assms(2-4) show ?thesis by simp
qed






subsection \<open>Well-formed states\<close>


text \<open>A step that makes no channel, closes none and keeps the registry keeps \<open>well_formed\<close>.\<close>

lemma wf_same_channels:
  assumes "well_formed s" and "distinct (map fst (alerts s'))" and "listeners s' = listeners s"
    and "stopGC s' = stopGC s" and "brk s' = brk s" and "flags s' = flags s"
  shows "well_formed s'"
proof -
  have dom: "heap s' c \<noteq> None \<longleftrightarrow> heap s c \<noteq> None" for c
    using fun_cong [OF assms(6), of c]
    by (cases "heap s c"; cases "heap s' c") (simp_all add: flags_def)
  have "queue_open s' = queue_open s" by (rule queue_open_cong [OF assms(6)])
  with assms(1-5) dom show ?thesis by (simp add: well_formed_def)
qed

lemma Put_loop_distinct:
  "Put_loop M pick k xs s = Returns s' \<Longrightarrow> distinct (map fst (alerts s)) \<Longrightarrow>
     distinct (map fst (alerts s'))"
proof (induction xs arbitrary: k s)
  case Nil
  then show ?case by simp
next
  case (Cons x xs)
  from Cons.prems(1) obtain s1 where b: "Put_body M (pick k) x s = Returns s1"
    and r: "Put_loop M pick (Suc k) xs s1 = Returns s'"
    by (auto simp: bind_outcome_Returns_iff)
  from Put_body_alerts [OF b] Cons.prems(2) have "distinct (map fst (alerts s1))"
    by (simp add: distinct_update)
  from Cons.IH [OF r this] show ?case .
qed

lemma dones_update_subset:
  "set (dones (AList.update k v ls)) \<subseteq> insert (l_done v) (set (dones ls))"
  by (induction ls) (auto simp: dones_def)

lemma chans_update_distinct:
  assumes "distinct (queues ls @ dones ls)"
    and "l_alerts v \<notin> set (queues ls @ dones ls)" and "l_done v \<notin> set (queues ls @ dones ls)"
    and "l_alerts v \<noteq> l_done v"
  shows "distinct (queues (AList.update k v ls) @ dones (AList.update k v ls))"
  using assms
proof (induction ls)
  case Nil
  then show ?case by (simp add: queues_def dones_def)
next
  case (Cons p ls)
  obtain i l where p: "p = (i, l)" by (cases p)
  show ?case
  proof (cases "i = k")
    case True
    with Cons.prems show ?thesis by (auto simp: p queues_def dones_def)
  next
    case False
    from Cons.prems have IH: "distinct (queues (AList.update k v ls) @ dones (AList.update k v ls))"
      by (intro Cons.IH) (auto simp: p queues_def dones_def)
    from Cons.prems have a: "l_alerts l \<notin> insert (l_alerts v) (set (queues ls))"
      "l_alerts l \<notin> insert (l_done v) (set (dones ls))"
      "l_done l \<notin> insert (l_alerts v) (set (queues ls))"
      "l_done l \<notin> insert (l_done v) (set (dones ls))" "l_alerts l \<noteq> l_done l"
      by (auto simp: p queues_def dones_def)
    with queues_update_subset [of k v ls] dones_update_subset [of k v ls]
    have "l_alerts l \<notin> set (queues (AList.update k v ls))"
      "l_alerts l \<notin> set (dones (AList.update k v ls))"
      "l_done l \<notin> set (queues (AList.update k v ls))"
      "l_done l \<notin> set (dones (AList.update k v ls))"
      by blast+
    with IH a(5) False show ?thesis by (auto simp: p queues_def dones_def)
  qed
qed

lemma wf_subscribed:
  assumes "well_formed s"
  shows "well_formed (subscribed s)"
proof -
  let ?v = "\<lparr>l_alerts = brk s, l_done = Suc (brk s)\<rparr>"
  let ?ls = "AList.update (nxt s) ?v (listeners s)"
  from assms have all: "\<forall>c\<in>set (stopGC s # queues (listeners s) @ dones (listeners s)).
      c < brk s \<and> heap s c \<noteq> None"
    by (simp add: well_formed_def list_all_iff)
  then have lt: "c < brk s" if "c \<in> set (queues (listeners s) @ dones (listeners s))" for c
    using that by simp
  have fresh: "brk s \<notin> set (queues (listeners s) @ dones (listeners s))"
    "Suc (brk s) \<notin> set (queues (listeners s) @ dones (listeners s))"
    using lt [of "brk s"] lt [of "Suc (brk s)"] by auto
  from assms have "distinct (queues (listeners s) @ dones (listeners s))" by (simp add: well_formed_def)
  from chans_update_distinct [OF this, of ?v "nxt s"] fresh
  have d: "distinct (queues ?ls @ dones ?ls)" by simp
  have qs: "set (queues ?ls) \<subseteq> insert (brk s) (set (queues (listeners s)))"
    using queues_update_subset [of "nxt s" ?v "listeners s"] by simp
  have ds: "set (dones ?ls) \<subseteq> insert (Suc (brk s)) (set (dones (listeners s)))"
    using dones_update_subset [of "nxt s" ?v "listeners s"] by simp
  from all have stop: "stopGC s < brk s" "heap s (stopGC s) \<noteq> None" by simp_all
  have d3: "distinct (stopGC s # queues ?ls @ dones ?ls)"
  proof -
    from assms have "stopGC s \<notin> set (queues (listeners s) @ dones (listeners s))"
      by (simp add: well_formed_def)
    with qs ds stop(1) have "stopGC s \<notin> set (queues ?ls @ dones ?ls)" by auto
    with d show ?thesis by simp
  qed
  have hp: "heap (subscribed s) c = heap s c" if "c < brk s" for c
    using that by (simp add: subscribed_def)
  have a: "\<forall>c\<in>set (stopGC s # queues ?ls @ dones ?ls).
      c < Suc (Suc (brk s)) \<and> heap (subscribed s) c \<noteq> None"
  proof
    fix c assume "c \<in> set (stopGC s # queues ?ls @ dones ?ls)"
    with qs ds have "c = brk s \<or> c = Suc (brk s) \<or>
        c \<in> set (stopGC s # queues (listeners s) @ dones (listeners s))" by auto
    then show "c < Suc (Suc (brk s)) \<and> heap (subscribed s) c \<noteq> None"
    proof (elim disjE)
      assume "c \<in> set (stopGC s # queues (listeners s) @ dones (listeners s))"
      with all have "c < brk s" "heap s c \<noteq> None" by auto
      with hp [of c] show ?thesis by simp
    qed (simp_all add: subscribed_def)
  qed
  have o: "\<forall>c\<in>set (queues ?ls). queue_open (subscribed s) c"
  proof
    fix c assume "c \<in> set (queues ?ls)"
    with qs have "c = brk s \<or> c \<in> set (queues (listeners s))" by auto
    then show "queue_open (subscribed s) c"
    proof
      assume "c = brk s"
      then show ?thesis by (simp add: queue_open_def subscribed_def)
    next
      assume c: "c \<in> set (queues (listeners s))"
      with all have "c < brk s" by auto
      from assms c have "queue_open s c" by (simp add: well_formed_def list_all_iff)
      with hp [OF \<open>c < brk s\<close>] show ?thesis by (simp add: queue_open_def)
    qed
  qed
  have ls: "listeners (subscribed s) = ?ls" "stopGC (subscribed s) = stopGC s"
    "brk (subscribed s) = Suc (Suc (brk s))" "alerts (subscribed s) = alerts s"
    by (simp_all add: subscribed_def)
  from assms have "distinct (map fst (alerts s))" "distinct (map fst (listeners s))"
    by (simp_all add: well_formed_def)
  with d3 a o show ?thesis
    by (simp add: well_formed_def ls list_all_iff distinct_update del: distinct.simps set_simps set_append)
qed

lemma wf_heap_below:
  assumes "well_formed s" and "alerts s' = alerts s" and "listeners s' = listeners s"
    and "stopGC s' = stopGC s" and "brk s \<le> brk s'"
    and below: "\<And>c. c < brk s \<Longrightarrow> heap s' c = heap s c"
  shows "well_formed s'"
proof -
  from assms(1) have all: "\<forall>c\<in>set (stopGC s # queues (listeners s) @ dones (listeners s)).
      c < brk s \<and> heap s c \<noteq> None"
    and op: "\<forall>c\<in>set (queues (listeners s)). queue_open s c"
    by (simp_all add: well_formed_def list_all_iff)
  have all': "\<forall>c\<in>set (stopGC s # queues (listeners s) @ dones (listeners s)).
      c < brk s' \<and> heap s' c \<noteq> None"
  proof
    fix c assume "c \<in> set (stopGC s # queues (listeners s) @ dones (listeners s))"
    with all have "c < brk s" "heap s c \<noteq> None" by auto
    with below [of c] assms(5) show "c < brk s' \<and> heap s' c \<noteq> None" by simp
  qed
  have op': "\<forall>c\<in>set (queues (listeners s)). queue_open s' c"
  proof
    fix c assume c: "c \<in> set (queues (listeners s))"
    with all have "c < brk s" by auto
    from below [OF this] op c show "queue_open s' c" by (simp add: queue_open_def)
  qed
  from assms(1) all' op' show ?thesis
    by (simp add: well_formed_def assms(2,3,4) list_all_iff del: set_simps set_append)
qed

lemma wf_GetPending: "well_formed s \<Longrightarrow> well_formed (snd (snd (GetPending s)))"
  by (rule wf_heap_below [of s])
    (simp_all add: GetPending_def make_chan_def getPending_def Let_def)

lemma wf_chan_close:
  assumes "well_formed s" and cl: "chan_close c s = Returns s'" and nq: "c \<notin> set (queues (listeners s))"
  shows "well_formed s'"
proof -
  from chan_close_Returns [OF cl] obtain ch where
    s': "s' = s\<lparr>heap := (heap s)(c \<mapsto> ch\<lparr>ch_closed := True\<rparr>)\<rparr>" and c: "heap s c = Some ch"
    by blast
  from assms(1) have all: "\<forall>c\<in>set (stopGC s # queues (listeners s) @ dones (listeners s)).
      c < brk s \<and> heap s c \<noteq> None"
    and op: "\<forall>c\<in>set (queues (listeners s)). queue_open s c"
    by (simp_all add: well_formed_def list_all_iff)
  from all have all': "\<forall>c\<in>set (stopGC s # queues (listeners s) @ dones (listeners s)).
      c < brk s' \<and> heap s' c \<noteq> None"
    by (simp add: s')
  have op': "\<forall>c'\<in>set (queues (listeners s)). queue_open s' c'"
  proof
    fix c' assume c': "c' \<in> set (queues (listeners s))"
    with nq have "c' \<noteq> c" by auto
    with op c' show "queue_open s' c'" by (simp add: queue_open_def s')
  qed
  have fr: "alerts s' = alerts s" "listeners s' = listeners s" "stopGC s' = stopGC s"
    by (simp_all add: s')
  from assms(1) all' op' show ?thesis
    by (simp add: well_formed_def fr list_all_iff del: set_simps set_append)
qed

lemma gc_listeners_filter:
  "gc_listeners ls s = Returns s' \<Longrightarrow> \<exists>P. listeners s' = filter P (listeners s)"
proof (induction ls arbitrary: s)
  case Nil
  then have "listeners s' = filter (\<lambda>_. True) (listeners s)" by simp
  then show ?case by blast
next
  case (Cons p ls)
  obtain i l where p: "p = (i, l)" by (cases p)
  from Cons.prems [unfolded p] show ?case
  proof (cases rule: gc_listeners_Cons)
    case (closed s2)
    from chan_close_frame [OF closed(2)]
    have "listeners s2 = filter (\<lambda>(k, _). i \<noteq> k) (listeners s)" by (simp add: AList.delete_eq)
    moreover from Cons.IH [OF closed(3)] obtain P where "listeners s' = filter P (listeners s2)"
      by blast
    ultimately have "listeners s' = filter (\<lambda>x. (case x of (k, _) \<Rightarrow> i \<noteq> k) \<and> P x) (listeners s)"
      by simp
    then show ?thesis by blast
  next
    case kept
    from Cons.IH [OF kept(2)] show ?thesis .
  qed
qed

lemma gc_listeners_dom:
  "gc_listeners ls s = Returns s' \<Longrightarrow> heap s c \<noteq> None \<Longrightarrow> heap s' c \<noteq> None"
proof (induction ls arbitrary: s)
  case Nil
  then show ?case by simp
next
  case (Cons p ls)
  obtain i l where p: "p = (i, l)" by (cases p)
  from Cons.prems(1) [unfolded p] show ?case
  proof (cases rule: gc_listeners_Cons)
    case (closed s2)
    from chan_close_Returns [OF closed(2)] Cons.prems(2) have "heap s2 c \<noteq> None" by auto
    from Cons.IH [OF closed(3) this] show ?thesis .
  next
    case kept
    from Cons.IH [OF kept(2) Cons.prems(2)] show ?thesis .
  qed
qed

lemma gc_listeners_changed:
  "gc_listeners ls s = Returns s' \<Longrightarrow> flags s' c \<noteq> flags s c \<Longrightarrow>
     \<exists>i l. (i, l) \<in> set ls \<and> l_alerts l = c \<and> i \<notin> fst ` set (listeners s')"
proof (induction ls arbitrary: s)
  case Nil
  then show ?case by simp
next
  case (Cons p ls)
  obtain i l where p: "p = (i, l)" by (cases p)
  from Cons.prems(1) [unfolded p] show ?case
  proof (cases rule: gc_listeners_Cons)
    case (closed s2)
    have fl2: "flags s2 = (flags s)(l_alerts l \<mapsto> True)"
      using chan_close_flags [OF closed(2)] by simp
    show ?thesis
    proof (cases "flags s' c = flags s2 c")
      case True
      with Cons.prems(2) fl2 have c: "c = l_alerts l" by (auto split: if_splits)
      have "i \<notin> fst ` set (listeners s2)"
        using chan_close_frame [OF closed(2)] by (simp add: delete_notin_dom)
      with gc_listeners_subset [OF closed(3)] have "i \<notin> fst ` set (listeners s')" by auto
      with c show ?thesis by (auto simp: p)
    next
      case False
      from Cons.IH [OF closed(3) False] show ?thesis by (auto simp: p)
    qed
  next
    case kept
    from Cons.IH [OF kept(2) Cons.prems(2)] show ?thesis by (auto simp: p)
  qed
qed

lemma distinct_chans_filter:
  "distinct (a # queues ls @ dones ls) \<Longrightarrow> distinct (a # queues (filter P ls) @ dones (filter P ls))"
  by (induction ls) (auto simp: queues_def dones_def)

lemma wf_gc_alerts:
  assumes "well_formed s"
  shows "well_formed (gc_alerts now k es s)"
  using assms
  by (intro wf_same_channels [OF assms])
    (simp_all add: gc_alerts_eq well_formed_def distinct_map_filter flags_def fun_eq_iff)

lemma wf_gc_listeners:
  assumes w: "well_formed s" and g: "gc_listeners (listeners s) s = Returns s'"
  shows "well_formed s'"
proof -
  from gc_listeners_filter [OF g] obtain P where ls: "listeners s' = filter P (listeners s)"
    by blast
  have fr: "alerts s' = alerts s" "stopGC s' = stopGC s" "brk s' = brk s"
    using gc_listeners_frame [OF g] by simp_all
  from w have all: "\<forall>c\<in>set (stopGC s # queues (listeners s) @ dones (listeners s)).
      c < brk s \<and> heap s c \<noteq> None"
    and op: "\<forall>c\<in>set (queues (listeners s)). queue_open s c"
    and d: "distinct (queues (listeners s))"
    by (simp_all add: well_formed_def list_all_iff)
  have sub: "set (queues (listeners s')) \<subseteq> set (queues (listeners s))"
    "set (dones (listeners s')) \<subseteq> set (dones (listeners s))"
    by (auto simp: ls queues_def dones_def)
  have all': "\<forall>c\<in>set (stopGC s # queues (listeners s') @ dones (listeners s')).
      c < brk s \<and> heap s' c \<noteq> None"
  proof
    fix c assume "c \<in> set (stopGC s # queues (listeners s') @ dones (listeners s'))"
    with sub have "c \<in> set (stopGC s # queues (listeners s) @ dones (listeners s))" by auto
    with all have "c < brk s" "heap s c \<noteq> None" by auto
    with gc_listeners_dom [OF g, of c] show "c < brk s \<and> heap s' c \<noteq> None" by simp
  qed
  have op': "\<forall>c\<in>set (queues (listeners s')). queue_open s' c"
  proof
    fix c assume "c \<in> set (queues (listeners s'))"
    then obtain j l' where j: "(j, l') \<in> set (listeners s')" and c: "c = l_alerts l'"
      by (auto simp: queues_def)
    from j have js: "(j, l') \<in> set (listeners s)" by (simp add: ls)
    then have "c \<in> set (queues (listeners s))" by (force simp: queues_def c)
    with op have o: "queue_open s c" by blast
    have "flags s' c = flags s c"
    proof (rule ccontr)
      assume "flags s' c \<noteq> flags s c"
      from gc_listeners_changed [OF g this] obtain i l where
        il: "(i, l) \<in> set (listeners s)" "l_alerts l = c" "i \<notin> fst ` set (listeners s')"
        by blast
      from same_queue_same_listener [OF d il(1) js] il(2) c have "i = j" by simp
      with il(3) j show False by force
    qed
    with o show "queue_open s' c" by (simp add: queue_open_flags)
  qed
  from w have "distinct (map fst (alerts s))" "distinct (map fst (listeners s))"
    "distinct (stopGC s # queues (listeners s) @ dones (listeners s))"
    by (simp_all add: well_formed_def)
  with distinct_chans_filter [of "stopGC s" "listeners s" P] all' op'
  show ?thesis
    by (simp add: well_formed_def fr ls [symmetric] list_all_iff distinct_map_filter
        del: set_simps set_append distinct.simps)
      (simp add: ls distinct_map_filter)
qed

lemma wf_gc_sweep:
  assumes "well_formed s" and "gc_sweep now s = Returns s'"
  shows "well_formed s'"
proof -
  let ?s1 = "gc_alerts now 0 (alerts s) s"
  from assms(1) have w1: "well_formed ?s1" by (rule wf_gc_alerts)
  from assms(2) have "gc_listeners (listeners ?s1) ?s1 = Returns s'"
    by (simp only: gc_sweep_def Let_def)
  from wf_gc_listeners [OF w1 this] show ?thesis .
qed

lemma wf_step:
  assumes w: "well_formed s" and st: "step call s = Returns s'"
  shows "well_formed s'"
proof (cases call)
  case (Call_Put M pick xs)
  with st have l: "Put_loop M pick 0 xs s = Returns s'"
    by (auto simp: Put_def bind_outcome_Returns_iff)
  from w have "distinct (map fst (alerts s))" by (simp add: well_formed_def)
  from Put_loop_distinct [OF l this] Put_loop_frame [OF l] show ?thesis
    by (intro wf_same_channels [OF w]) simp_all
next
  case (Call_Get fp)
  with st w show ?thesis by simp
next
  case Call_Subscribe
  with st have "s' = subscribed s" by (simp add: Subscribe_Returns)
  with wf_subscribed [OF w] show ?thesis by simp
next
  case Call_GetPending
  with st have "s' = snd (snd (GetPending s))" by simp
  with wf_GetPending [OF w] show ?thesis by simp
next
  case Call_Close
  with st have c: "chan_close (stopGC s) s = Returns s'"
    by (auto simp: Close_def bind_outcome_Returns_iff)
  from w have "stopGC s \<notin> set (queues (listeners s))" by (simp add: well_formed_def)
  from wf_chan_close [OF w c this] show ?thesis .
next
  case (GC_sweep now)
  with st have "gc_sweep now s = Returns s'" by simp
  from wf_gc_sweep [OF w this] show ?thesis .
next
  case (Consumer_cancel i)
  show ?thesis
  proof (cases "map_of (listeners s) i")
    case None
    with st Consumer_cancel w show ?thesis by simp
  next
    case (Some l)
    with st Consumer_cancel have c: "chan_close (l_done l) s = Returns s'"
      by (simp add: cancel_def)
    from Some have "(i, l) \<in> set (listeners s)" by (rule map_of_SomeD)
    then have "l_done l \<in> set (dones (listeners s))" by (force simp: dones_def)
    with w have "l_done l \<notin> set (queues (listeners s))" by (auto simp: well_formed_def)
    from wf_chan_close [OF w c this] show ?thesis .
  qed
next
  case (Consumer_recv i)
  show ?thesis
  proof (cases "map_of (listeners s) i")
    case None
    with st Consumer_recv w show ?thesis by simp
  next
    case (Some l)
    with st Consumer_recv obtain x where rc: "chan_recv (l_alerts l) s = Returns (x, s')"
      by (auto simp: bind_outcome_Returns_iff)
    from chan_recv_Returns [OF rc] w show ?thesis
      by (intro wf_same_channels [OF w]) (simp_all add: well_formed_def)
  qed
qed

lemma wf_run: "well_formed s \<Longrightarrow> run cs s = Returns s' \<Longrightarrow> well_formed s'"
proof (induction cs arbitrary: s)
  case Nil
  then show ?case by simp
next
  case (Cons call cs)
  from Cons.prems(2) obtain s1 where 1: "step call s = Returns s1" and 2: "run cs s1 = Returns s'"
    by (auto simp: bind_outcome_Returns_iff)
  from Cons.IH [OF wf_step [OF Cons.prems(1) 1] 2] show ?case .
qed

subsection \<open>Close, once\<close>








end
